theory Spec2Isabelle
  imports Main "HOL-Library.Sublist"
begin

section \<open>Python string operations used by the key injector\<close>

text \<open>
  Python strings are modelled as Isabelle strings (lists of characters).  The content of a
  file is the list of its characters as stored; reading and writing in text mode translate
  the line endings (see \<open>read_text\<close> and \<open>write_text\<close>).  Every character is one code
  point below 256; of the character encoding the model keeps only whether a file decodes.
\<close>

definition newline :: char where
  "newline = CHR 0x0A"

text \<open>\<open>str.isspace\<close> for one character, on the code points below 256.\<close>

definition py_isspace :: "char \<Rightarrow> bool" where
  "py_isspace c = ((of_char c :: nat) \<in> set [9, 10, 11, 12, 13, 28, 29, 30, 31, 32, 133, 160])"

text \<open>\<open>s.rstrip()\<close>: remove the trailing whitespace.\<close>

definition rstrip :: "string \<Rightarrow> string" where
  "rstrip s = rev (dropWhile py_isspace (rev s))"

text \<open>\<open>f.readlines()\<close>: the lines of a text, each keeping its terminating newline.\<close>

fun readlines :: "string \<Rightarrow> string list" where
  "readlines [] = []"
| "readlines (c # cs) =
     (if c = newline then [c] # readlines cs
      else (case readlines cs of [] \<Rightarrow> [[c]] | l # ls \<Rightarrow> (c # l) # ls))"

text \<open>\<open>t in s\<close>: the string \<open>t\<close> occurs in \<open>s\<close> as a contiguous substring.\<close>

fun str_contains :: "string \<Rightarrow> string \<Rightarrow> bool" where
  "str_contains [] t = (t = [])"
| "str_contains (c # cs) t = (prefix t (c # cs) \<or> str_contains cs t)"

text \<open>
  \<open>s.replace(old, new)\<close>: every non-overlapping occurrence of \<open>old\<close>, found from left to
  right, is replaced by \<open>new\<close>.  \<open>replace_nonempty\<close> is the scan for a non-empty \<open>old\<close>;
  an empty \<open>old\<close> matches before every character and at the end.
\<close>

fun replace_nonempty :: "string \<Rightarrow> string \<Rightarrow> string \<Rightarrow> string" where
  "replace_nonempty [] old new = []"
| "replace_nonempty (c # cs) old new =
     (if prefix old (c # cs) then new @ replace_nonempty (drop (length old - 1) cs) old new
      else c # replace_nonempty cs old new)"

definition str_replace :: "string \<Rightarrow> string \<Rightarrow> string \<Rightarrow> string" where
  "str_replace s old new =
     (if old = [] then new @ concat (map (\<lambda>c. c # new) s) else replace_nonempty s old new)"

section \<open>The key injector (deploy/scripts/inject\_key.py)\<close>

text \<open>
  The exceptions that opening and reading a file raise.  The text of a decoding error
  depends on the codec and the bytes; the model keeps a fixed text for it.
\<close>

datatype exn = FileNotFoundError string | PermissionError string | UnicodeDecodeError string

fun exn_str :: "exn \<Rightarrow> string" where
  "exn_str (FileNotFoundError p) = ''[Errno 2] No such file or directory: '' @ [CHR 0x27] @ p @ [CHR 0x27]"
| "exn_str (PermissionError p) = ''[Errno 13] Permission denied: '' @ [CHR 0x27] @ p @ [CHR 0x27]"
| "exn_str (UnicodeDecodeError p) = ''codec cannot decode the bytes of the file''"

text \<open>
  A file: the characters it holds, whether it may be opened for reading and for writing,
  and whether its bytes decode in the encoding that text mode uses (\<open>content\<close> is then
  the decoded characters, line ends as stored).
\<close>

record file_entry =
  content :: string
  readable :: bool
  writable :: bool
  decodable :: bool

type_synonym filesystem = "string \<rightharpoonup> file_entry"

definition carriage_return :: char where
  "carriage_return = CHR 0x0D"

text \<open>
  Reading in text mode with the default \<open>newline=None\<close>: every \<open>\r\n\<close> and every
  other \<open>\r\<close> of the file arrives as \<open>\n\<close>.
\<close>

fun universal_newlines :: "string \<Rightarrow> string" where
  "universal_newlines [] = []"
| "universal_newlines [c] = (if c = carriage_return then [newline] else [c])"
| "universal_newlines (c # d # ds) =
     (if c = carriage_return \<and> d = newline then newline # universal_newlines ds
      else if c = carriage_return then newline # universal_newlines (d # ds)
      else c # universal_newlines (d # ds))"

text \<open>\<open>open(p, 'r')\<close> followed by reading the whole text.\<close>

definition read_text :: "filesystem \<Rightarrow> string \<Rightarrow> exn + string" where
  "read_text fs p =
     (case fs p of
        None \<Rightarrow> Inl (FileNotFoundError p)
      | Some f \<Rightarrow>
          if \<not> readable f then Inl (PermissionError p)
          else if \<not> decodable f then Inl (UnicodeDecodeError p)
          else Inr (universal_newlines (content f)))"

text \<open>
  \<open>open(p, 'w')\<close> followed by \<open>write(s)\<close>: a missing file is created.  Writing in text
  mode turns every \<open>\n\<close> into \<open>os.linesep\<close>, which is \<open>\n\<close> itself on the POSIX
  systems the script is deployed on, so the text is stored as it is.
\<close>

definition write_text :: "filesystem \<Rightarrow> string \<Rightarrow> string \<Rightarrow> exn + filesystem" where
  "write_text fs p s =
     (case fs p of
        None \<Rightarrow>
          Inr (fs(p \<mapsto> \<lparr>content = s, readable = True, writable = True, decodable = True\<rparr>))
      | Some f \<Rightarrow>
          if writable f then Inr (fs(p \<mapsto> f\<lparr>content := s, decodable := True\<rparr>))
          else Inl (PermissionError p))"

definition indent :: string where
  "indent = replicate 16 CHR '' ''"

definition bare_placeholder :: string where
  "bare_placeholder = ''__OIDC_KEY_PLACEHOLDER__''"

definition target :: string where
  "target = indent @ bare_placeholder"

text \<open>How a call ends: it returns, or \<open>sys.exit(n)\<close> ends the process.\<close>

datatype outcome = Returned | Exit int

text \<open>
  \<open>inject_key\<close> takes the two paths and the file system, and gives how the call ended,
  the file system afterwards and the lines printed.
\<close>

definition inject_key :: "string \<Rightarrow> string \<Rightarrow> filesystem \<Rightarrow> outcome \<times> filesystem \<times> string list" where
  "inject_key key_path config_path fs =
     (let out0 = [''Injecting key from '' @ key_path @ '' into '' @ config_path] in
      case read_text fs key_path of
        Inl e \<Rightarrow> (Exit 1, fs, out0 @ [''Error: '' @ exn_str e])
      | Inr key_text \<Rightarrow>
          let key_content = concat (map (\<lambda>line. indent @ line) (readlines key_text)) in
          (case read_text fs config_path of
             Inl e \<Rightarrow> (Exit 1, fs, out0 @ [''Error: '' @ exn_str e])
           | Inr config_content \<Rightarrow>
               let (new_content, out1) =
                     (if str_contains config_content target
                      then (str_replace config_content target (rstrip key_content),
                            out0 @ [''Placeholder found and replaced.''])
                      else (str_replace config_content bare_placeholder key_content,
                            out0 @ [''Indented placeholder not found, trying bare replacement.'']))
               in
               (case write_text fs config_path new_content of
                  Inl e \<Rightarrow> (Exit 1, fs, out1 @ [''Error: '' @ exn_str e])
                | Inr fs' \<Rightarrow> (Returned, fs', out1 @ [''Successfully injected key.'']))))"

text \<open>The script's entry point: the exit status, the file system and the lines printed.\<close>

definition script_main :: "string list \<Rightarrow> filesystem \<Rightarrow> int \<times> filesystem \<times> string list" where
  "script_main argv fs =
     (if length argv \<noteq> 3 then (1, fs, [''Usage: inject_key.py <key_file> <config_file>''])
      else (case inject_key (argv ! 1) (argv ! 2) fs of
              (Exit n, fs', out) \<Rightarrow> (n, fs', out)
            | (Returned, fs', out) \<Rightarrow> (0, fs', out)))"

text \<open>The text of the config file after the call, if the file exists.\<close>

definition config_after :: "string \<Rightarrow> string \<Rightarrow> filesystem \<Rightarrow> string option" where
  "config_after key_path config_path fs =
     map_option content (fst (snd (inject_key key_path config_path fs)) config_path)"

subsection \<open>Notions used to state the properties\<close>

text \<open>\<open>sep.join(segs)\<close>: the segments with \<open>sep\<close> between each two neighbours.\<close>

fun join :: "string \<Rightarrow> string list \<Rightarrow> string" where
  "join sep [] = []"
| "join sep [x] = x"
| "join sep (x # y # ys) = x @ sep @ join sep (y # ys)"

text \<open>The positions at which \<open>t\<close> occurs in \<open>s\<close>.\<close>

definition occurrences :: "string \<Rightarrow> string \<Rightarrow> nat list" where
  "occurrences s t = filter (\<lambda>i. prefix t (drop i s)) [0..<Suc (length s)]"

text \<open>
  \<open>s.split(t)\<close> for a non-empty \<open>t\<close>: the pieces of \<open>s\<close> between the occurrences of
  \<open>t\<close> that a scan from the left finds, each occurrence starting where the one before
  has ended or later.
\<close>

fun split_nonempty :: "string \<Rightarrow> string \<Rightarrow> string list" where
  "split_nonempty [] t = [[]]"
| "split_nonempty (c # cs) t =
     (if prefix t (c # cs) then [] # split_nonempty (drop (length t - 1) cs) t
      else (case split_nonempty cs t of [] \<Rightarrow> [[c]] | p # ps \<Rightarrow> (c # p) # ps))"

text \<open>
  \<open>leftmost_split t segs\<close>: in the text \<open>join t segs\<close> the separators are the occurrences
  of \<open>t\<close> a scan from the left finds.  No occurrence of \<open>t\<close> begins inside a piece that
  a separator follows, not even one that runs into that separator, and the last piece
  does not contain \<open>t\<close>.
\<close>

fun leftmost_split :: "string \<Rightarrow> string list \<Rightarrow> bool" where
  "leftmost_split t [] = False"
| "leftmost_split t [x] = (\<not> str_contains x t)"
| "leftmost_split t (x # y # ys) =
     (\<not> str_contains (x @ butlast t) t \<and> leftmost_split t (y # ys))"

definition plain_file :: "string \<Rightarrow> file_entry" where
  "plain_file s = \<lparr>content = s, readable = True, writable = True, decodable = True\<rparr>"

section \<open>The container metadata exporter (deploy/exporter/exporter.py)\<close>

text \<open>
  The container runtime is outside the program.  A container object carries its id; reading
  one of its other attributes asks the runtime and may raise.
\<close>

datatype docker_exn = DockerException string

fun docker_exn_str :: "docker_exn \<Rightarrow> string" where
  "docker_exn_str (DockerException m) = m"

record image =
  img_tags :: "string list"
  img_id :: string

record container =
  c_id :: string
  c_name :: "docker_exn + string"
  c_image :: "docker_exn + image"
  c_status :: "docker_exn + string"
  c_labels :: "docker_exn + (string \<rightharpoonup> string)"

datatype docker_client = DockerClient (containers_list: "docker_exn + container list")

text \<open>
  The label values of one gauge child, in the order of the gauge's label names:
  \<open>id\<close>, \<open>name\<close>, \<open>image\<close>, \<open>com_docker_compose_service\<close>, \<open>state\<close>, \<open>full_id\<close>.
\<close>

type_synonym label_tuple = "string \<times> string \<times> string \<times> string \<times> string \<times> string"

record exporter_state =
  CONTAINER_META :: "label_tuple \<rightharpoonup> int"
  stdout :: "string list"

text \<open>\<open>s.lstrip('/')\<close>\<close>

definition lstrip_slash :: "string \<Rightarrow> string" where
  "lstrip_slash s = dropWhile (\<lambda>c. c = CHR ''/'') s"

text \<open>The attribute reads of one loop iteration, in the order of the source.\<close>

definition extract_labels :: "container \<Rightarrow> docker_exn + label_tuple" where
  "extract_labels c =
     (let full_id = c_id c;
          short_id = take 12 (c_id c)
      in case c_name c of
           Inl e \<Rightarrow> Inl e
         | Inr n \<Rightarrow>
             let name = lstrip_slash n in
             (case c_image c of
                Inl e \<Rightarrow> Inl e
              | Inr img \<Rightarrow>
                  let image = (case img_tags img of [] \<Rightarrow> img_id img | t # _ \<Rightarrow> t) in
                  (case c_status c of
                     Inl e \<Rightarrow> Inl e
                   | Inr state \<Rightarrow>
                       (case c_labels c of
                          Inl e \<Rightarrow> Inl e
                        | Inr labels \<Rightarrow>
                            let service = (case labels ''com.docker.compose.service'' of
                                             Some v \<Rightarrow> v | None \<Rightarrow> name)
                            in Inr (short_id, name, image, service, state, full_id)))))"

text \<open>One iteration of the loop: set the gauge child to 1, or print the error.\<close>

definition process_container :: "exporter_state \<Rightarrow> container \<Rightarrow> exporter_state" where
  "process_container st c =
     (case extract_labels c of
        Inr t \<Rightarrow> st\<lparr>CONTAINER_META := (CONTAINER_META st)(t \<mapsto> 1)\<rparr>
      | Inl e \<Rightarrow> st\<lparr>stdout := stdout st @
                  [''Error processing container '' @ take 12 (c_id c) @ '': '' @ docker_exn_str e]\<rparr>)"

fun process_containers :: "container list \<Rightarrow> exporter_state \<Rightarrow> exporter_state" where
  "process_containers [] st = st"
| "process_containers (c # cs) st = process_containers cs (process_container st c)"

text \<open>
  \<open>collect_metrics\<close> takes the outcome of \<open>docker.from_env()\<close> and the state, and gives the
  state afterwards.  Every exception is caught, so the call always returns.
\<close>

definition collect_metrics :: "docker_exn + docker_client \<Rightarrow> exporter_state \<Rightarrow> exporter_state" where
  "collect_metrics from_env st =
     (case from_env of
        Inl e \<Rightarrow> st\<lparr>stdout := stdout st @ [''Error connecting to Docker: '' @ docker_exn_str e]\<rparr>
      | Inr client \<Rightarrow>
          (case containers_list client of
             Inl e \<Rightarrow> st\<lparr>stdout := stdout st @ [''Error connecting to Docker: '' @ docker_exn_str e]\<rparr>
           | Inr containers \<Rightarrow> process_containers containers (st\<lparr>CONTAINER_META := Map.empty\<rparr>)))"

section \<open>Sample inputs\<close>

definition fs_two_placeholders :: filesystem where
  "fs_two_placeholders =
     [''oidc.key'' \<mapsto> plain_file ''K'',
      ''config.yml'' \<mapsto> plain_file (target @ [newline] @ target)]"

definition fs_bare_placeholder :: filesystem where
  "fs_bare_placeholder =
     [''oidc.key'' \<mapsto> plain_file (''K'' @ [newline]),
      ''config.yml'' \<mapsto> plain_file ''x: __OIDC_KEY_PLACEHOLDER__'']"

definition fs_line_key :: filesystem where
  "fs_line_key =
     [''oidc.key'' \<mapsto> plain_file (''LINE1'' @ [newline] @ ''LINE2'' @ [newline]),
      ''config.yml'' \<mapsto> plain_file (''key: |'' @ [newline] @ target @ [newline] @ ''next: 1'')]"

definition fs_no_placeholder :: filesystem where
  "fs_no_placeholder =
     [''oidc.key'' \<mapsto> plain_file (''K'' @ [newline]),
      ''config.yml'' \<mapsto> plain_file ''issuer: none'']"

definition fs_partial_token :: filesystem where
  "fs_partial_token =
     [''oidc.key'' \<mapsto> plain_file (''K'' @ [newline]),
      ''config.yml'' \<mapsto>
        plain_file ''x: __OIDC_KEY_PLACEHOLDER____OIDC_KEY_PLACEHOLDER_'']"

definition fs_crlf_placeholder :: filesystem where
  "fs_crlf_placeholder =
     [''oidc.key'' \<mapsto> plain_file (''LINE1'' @ [newline] @ ''LINE2'' @ [newline]),
      ''config.yml'' \<mapsto>
        plain_file (''a: |'' @ [carriage_return, newline] @ target @
                    [carriage_return, newline] @ ''b: 1'')]"

definition fs_crlf_no_placeholder :: filesystem where
  "fs_crlf_no_placeholder =
     [''oidc.key'' \<mapsto> plain_file (''K'' @ [newline]),
      ''config.yml'' \<mapsto>
        plain_file (''issuer: none'' @ [carriage_return, newline] @
                    ''port: 1'' @ [carriage_return, newline])]"

definition fs_missing_key :: filesystem where
  "fs_missing_key = [''config.yml'' \<mapsto> plain_file target]"

definition web_container :: container where
  "web_container =
     \<lparr>c_id = ''0123456789abcdef0123456789abcdef'',
      c_name = Inr ''/web'',
      c_image = Inr \<lparr>img_tags = [''nginx:latest''], img_id = ''sha256:aa11''\<rparr>,
      c_status = Inr ''running'',
      c_labels = Inr [''com.docker.compose.service'' \<mapsto> ''frontend'']\<rparr>"

definition db_container :: container where
  "db_container =
     \<lparr>c_id = ''fedcba9876543210fedcba9876543210'',
      c_name = Inr ''/db'',
      c_image = Inr \<lparr>img_tags = [], img_id = ''sha256:bb22''\<rparr>,
      c_status = Inr ''exited'',
      c_labels = Inr Map.empty\<rparr>"

definition broken_container :: container where
  "broken_container =
     \<lparr>c_id = ''aaaabbbbccccddddeeeeffff00001111'',
      c_name = Inr ''/old'',
      c_image = Inl (DockerException ''image not found''),
      c_status = Inr ''exited'',
      c_labels = Inr Map.empty\<rparr>"

definition stale_labels :: label_tuple where
  "stale_labels =
     (''999999999999'', ''gone'', ''busybox:1'', ''gone'', ''running'', ''9999999999999999'')"

definition st_stale :: exporter_state where
  "st_stale = \<lparr>CONTAINER_META = [stale_labels \<mapsto> 1], stdout = []\<rparr>"

section \<open>Facts about the string operations\<close>

lemma str_contains_sublist: "str_contains s t = sublist t s"
  by (induction s) (auto simp: sublist_Cons_right)

lemma str_contains_iff: "str_contains s t \<longleftrightarrow> (\<exists>ps ss. s = ps @ t @ ss)"
  by (simp add: str_contains_sublist sublist_def)

lemma replace_nonempty_absent:
  "\<not> str_contains s old \<Longrightarrow> replace_nonempty s old new = s"
  by (induction s) auto

lemma replace_nonempty_hit:
  assumes "old \<noteq> []"
  shows "replace_nonempty (old @ rest) old new = new @ replace_nonempty rest old new"
proof -
  obtain c cs where old: "old = c # cs" using assms by (cases old) auto
  have "replace_nonempty ((c # cs) @ rest) (c # cs) new
        = new @ replace_nonempty (drop (length (c # cs) - 1) (cs @ rest)) (c # cs) new"
    by simp
  then show ?thesis by (simp add: old)
qed

lemma replace_nonempty_skip:
  "\<forall>i<length pre. \<not> prefix old (drop i (pre @ rest)) \<Longrightarrow>
   replace_nonempty (pre @ rest) old new = pre @ replace_nonempty rest old new"
proof (induction pre)
  case Nil
  then show ?case by simp
next
  case (Cons c pre)
  have h0: "\<not> prefix old ((c # pre) @ rest)" using Cons.prems by force
  have "\<forall>i<length pre. \<not> prefix old (drop i (pre @ rest))"
  proof (intro allI impI)
    fix i assume "i < length pre"
    then have "Suc i < length (c # pre)" by simp
    then have "\<not> prefix old (drop (Suc i) ((c # pre) @ rest))" using Cons.prems by blast
    then show "\<not> prefix old (drop i (pre @ rest))" by simp
  qed
  then have "replace_nonempty (pre @ rest) old new = pre @ replace_nonempty rest old new"
    by (rule Cons.IH)
  then show ?case using h0 by simp
qed

lemma early_occurrence:
  assumes "i < length seg" "prefix old (drop i (seg @ old @ rest))"
  shows "str_contains (seg @ butlast old) old"
proof -
  define u where "u = drop i seg"
  have u: "u \<noteq> []" "seg = take i seg @ u" using assms(1) by (simp_all add: u_def)
  have p1: "prefix old (u @ old @ rest)" using assms by (simp add: u_def)
  have "u @ old @ rest = (u @ butlast old) @ (drop (length old - 1) old @ rest)"
    by (metis append.assoc append_take_drop_id butlast_conv_take)
  then have p2: "prefix (u @ butlast old) (u @ old @ rest)"
    by (metis prefixI)
  have "length old \<le> length (u @ butlast old)"
    using u(1) by (cases u) auto
  with p1 p2 have "prefix old (u @ butlast old)"
    by (rule prefix_length_prefix)
  then obtain zs where "u @ butlast old = old @ zs" by (auto simp: prefix_def)
  then have "seg @ butlast old = take i seg @ old @ zs"
    using u(2) by (metis append.assoc)
  then show ?thesis unfolding str_contains_iff by blast
qed

lemma str_contains_appendI: "str_contains s t \<Longrightarrow> str_contains (s @ r) t"
  unfolding str_contains_iff by (metis append.assoc)

lemma replace_nonempty_join:
  "old \<noteq> [] \<Longrightarrow> leftmost_split old segs \<Longrightarrow>
   replace_nonempty (join old segs) old new = join new segs"
proof (induction old segs rule: join.induct)
  case (1 sep)
  then show ?case by simp
next
  case (2 sep x)
  then have "\<not> str_contains x sep" by simp
  then show ?case by (simp add: replace_nonempty_absent)
next
  case (3 sep x y ys)
  let ?rest = "join sep (y # ys)"
  have x: "\<not> str_contains (x @ butlast sep) sep" using "3.prems" by simp
  have "\<forall>i<length x. \<not> prefix sep (drop i (x @ sep @ ?rest))"
    using x early_occurrence by blast
  then have "replace_nonempty (x @ sep @ ?rest) sep new
             = x @ replace_nonempty (sep @ ?rest) sep new"
    by (rule replace_nonempty_skip)
  also have "\<dots> = x @ new @ replace_nonempty ?rest sep new"
    using "3.prems"(1) by (simp add: replace_nonempty_hit)
  also have "replace_nonempty ?rest sep new = join new (y # ys)"
    using "3.IH" "3.prems" by simp
  finally show ?case by simp
qed

lemma leftmost_split_free:
  "leftmost_split t segs \<Longrightarrow> \<forall>seg\<in>set segs. \<not> str_contains seg t"
proof (induction t segs rule: leftmost_split.induct)
  case (1 t)
  then show ?case by simp
next
  case (2 t x)
  then show ?case by simp
next
  case (3 t x y ys)
  then have "\<not> str_contains (x @ butlast t) t" by simp
  then have "\<not> str_contains x t" using str_contains_appendI by blast
  then show ?case using 3 by simp
qed

lemma split_nonempty_not_Nil: "split_nonempty s t \<noteq> []"
  by (induction s t rule: split_nonempty.induct) (auto split: list.splits)

lemma join_char_Cons: "join t ((c # p) # ps) = c # join t (p # ps)"
  by (cases ps) simp_all

lemma join_Cons: "rest \<noteq> [] \<Longrightarrow> join t (x # rest) = x @ t @ join t rest"
  by (cases rest) simp_all

lemma leftmost_split_Cons:
  "rest \<noteq> [] \<Longrightarrow>
   leftmost_split t (x # rest) = (\<not> str_contains (x @ butlast t) t \<and> leftmost_split t rest)"
  by (cases rest) simp_all

lemma prefix_drop_pred:
  assumes "prefix t (c # cs)" "t \<noteq> []"
  shows "c # cs = t @ drop (length t - 1) cs"
proof -
  obtain zs where zs: "c # cs = t @ zs" using assms(1) by (auto simp: prefix_def)
  obtain t' where t: "t = c # t'" using assms(2) zs by (cases t) auto
  then have "cs = t' @ zs" using zs by simp
  then show ?thesis using t by simp
qed

lemma join_split_nonempty:
  "t \<noteq> [] \<Longrightarrow> join t (split_nonempty s t) = s"
proof (induction s t rule: split_nonempty.induct)
  case (1 t)
  then show ?case by simp
next
  case (2 c cs t)
  show ?case
  proof (cases "prefix t (c # cs)")
    case True
    then have "join t (split_nonempty (drop (length t - 1) cs) t) = drop (length t - 1) cs"
      using 2 by simp
    then have "join t ([] # split_nonempty (drop (length t - 1) cs) t)
               = t @ drop (length t - 1) cs"
      by (simp add: join_Cons split_nonempty_not_Nil)
    moreover have "split_nonempty (c # cs) t = [] # split_nonempty (drop (length t - 1) cs) t"
      using True by simp
    ultimately have "join t (split_nonempty (c # cs) t) = t @ drop (length t - 1) cs"
      by simp
    then show ?thesis
      unfolding prefix_drop_pred[OF True "2.prems", symmetric] .
  next
    case False
    obtain p ps where p: "split_nonempty cs t = p # ps"
      using split_nonempty_not_Nil by (cases "split_nonempty cs t") auto
    have "join t (p # ps) = cs" using 2 False p by simp
    then show ?thesis using False p by (simp add: join_char_Cons)
  qed
qed

lemma not_str_contains_butlast:
  assumes "t \<noteq> []"
  shows "\<not> str_contains (butlast t) t"
proof
  assume "str_contains (butlast t) t"
  then have "length t \<le> length (butlast t)"
    unfolding str_contains_sublist by (rule sublist_length_le)
  then have a: "length t \<le> length t - 1" unfolding length_butlast .
  have b: "length t \<noteq> 0" using assms by simp
  from a b show False by arith
qed

lemma leftmost_split_split_nonempty:
  "t \<noteq> [] \<Longrightarrow> leftmost_split t (split_nonempty s t)"
proof (induction s t rule: split_nonempty.induct)
  case (1 t)
  then show ?case by simp
next
  case (2 c cs t)
  show ?case
  proof (cases "prefix t (c # cs)")
    case True
    then have "leftmost_split t (split_nonempty (drop (length t - 1) cs) t)"
      using 2 by simp
    then have "leftmost_split t ([] # split_nonempty (drop (length t - 1) cs) t)"
      using not_str_contains_butlast[OF "2.prems"]
      by (simp add: leftmost_split_Cons split_nonempty_not_Nil)
    then show ?thesis using True by simp
  next
    case False
    obtain p ps where p: "split_nonempty cs t = p # ps"
      using split_nonempty_not_Nil by (cases "split_nonempty cs t") auto
    have ih: "leftmost_split t (p # ps)" using 2 False p by simp
    have cs: "join t (p # ps) = cs"
      using join_split_nonempty[OF "2.prems", of cs] p by simp
    have "leftmost_split t ((c # p) # ps)"
    proof (cases ps)
      case Nil
      then have "p = cs" using cs by simp
      moreover have "\<not> str_contains p t" using ih Nil by simp
      ultimately show ?thesis using False Nil by simp
    next
      case (Cons y ys)
      have a: "\<not> str_contains (p @ butlast t) t" and b: "leftmost_split t (y # ys)"
        using ih Cons by simp_all
      have "cs = p @ t @ join t (y # ys)" using cs Cons by simp
      then have "c # cs = (c # p @ butlast t) @ [last t] @ join t (y # ys)"
        using "2.prems" by simp
      then have "prefix (c # p @ butlast t) (c # cs)"
        by (metis prefixI)
      then have "\<not> prefix t (c # p @ butlast t)"
        using False prefix_order.trans by blast
      then have "\<not> str_contains ((c # p) @ butlast t) t" using a by simp
      then show ?thesis using b Cons by simp
    qed
    then show ?thesis using False p by simp
  qed
qed

lemma split_nonempty_length:
  assumes "t \<noteq> []" "str_contains s t"
  shows "2 \<le> length (split_nonempty s t)"
proof -
  obtain x xs where x: "split_nonempty s t = x # xs"
    using split_nonempty_not_Nil by (cases "split_nonempty s t") auto
  have "xs \<noteq> []"
  proof
    assume "xs = []"
    then have "x = s" using join_split_nonempty[OF assms(1), of s] x by simp
    moreover have "\<not> str_contains x t"
      using leftmost_split_split_nonempty[OF assms(1), of s] x \<open>xs = []\<close> by simp
    ultimately show False using assms(2) by simp
  qed
  then show ?thesis using x by (cases xs) auto
qed

lemma newline_not_cr: "newline \<noteq> carriage_return"
  by (simp add: newline_def carriage_return_def)

lemma universal_newlines_id:
  "carriage_return \<notin> set s \<Longrightarrow> universal_newlines s = s"
  by (induction s rule: universal_newlines.induct) auto

lemma universal_newlines_no_cr:
  "carriage_return \<notin> set (universal_newlines s)"
  by (induction s rule: universal_newlines.induct) (auto simp: newline_not_cr newline_not_cr[symmetric])

lemma universal_newlines_fixed_iff:
  "universal_newlines s = s \<longleftrightarrow> carriage_return \<notin> set s"
  using universal_newlines_id universal_newlines_no_cr by metis

lemma length_target: "length target = 40"
  by (simp add: target_def indent_def bare_placeholder_def)

lemma target_unbordered:
  "\<forall>n \<in> set [0..<40]. \<not> prefix (drop n target) (butlast target)"
  unfolding target_def indent_def bare_placeholder_def by code_simp

lemma target_no_early:
  assumes "\<not> str_contains seg target"
  shows "\<not> str_contains (seg @ butlast target) target"
proof
  assume "str_contains (seg @ butlast target) target"
  then obtain ps ss where eq: "seg @ butlast target = ps @ target @ ss"
    unfolding str_contains_iff by blast
  then have "length (seg @ butlast target) = length (ps @ target @ ss)" by simp
  then have lt: "length ps < length seg" by (simp add: length_target)
  define u where "u = drop (length ps) seg"
  have "take (length ps) (seg @ butlast target) = ps" using eq by simp
  then have "take (length ps) seg = ps" using lt by simp
  then have seg: "seg = ps @ u" unfolding u_def by (metis append_take_drop_id)
  have u2: "u @ butlast target = target @ ss" using eq seg by simp
  have ulen: "0 < length u" using lt by (simp add: u_def)
  show False
  proof (cases "40 \<le> length u")
    case True
    have "take 40 (u @ butlast target) = target" using u2 length_target by simp
    then have "take 40 u = target" using True by simp
    then have "u = target @ drop 40 u" by (metis append_take_drop_id)
    then have "seg = ps @ target @ drop 40 u" using seg by simp
    then show False using assms unfolding str_contains_iff by blast
  next
    case False
    then have n: "length u \<in> set [0..<40]" by simp
    have "drop (length u) (u @ butlast target) = drop (length u) (target @ ss)"
      using u2 by simp
    then have "butlast target = drop (length u) target @ ss"
      using False by (simp add: length_target)
    then have "prefix (drop (length u) target) (butlast target)"
      by (metis prefixI)
    then show False using target_unbordered n by blast
  qed
qed

lemma target_free_leftmost_split:
  "segs \<noteq> [] \<Longrightarrow> \<forall>seg\<in>set segs. \<not> str_contains seg target \<Longrightarrow>
   leftmost_split target segs"
proof (induction target segs rule: leftmost_split.induct)
  case 1
  then show ?case by simp
next
  case (2 x)
  then show ?case by simp
next
  case (3 x y ys)
  then show ?case using target_no_early by simp
qed

section \<open>Facts about the key injector\<close>

lemma read_text_plain:
  assumes "fs p = Some f" "readable f" "decodable f"
  shows "read_text fs p = Inr (universal_newlines (content f))"
  using assms by (simp add: read_text_def)

lemma read_text_Some:
  assumes "read_text fs p = Inr s" "fs p = Some f"
  shows "s = universal_newlines (content f)" and "decodable f"
  using assms by (auto simp: read_text_def split: if_splits)

lemma inject_key_ok:
  assumes "read_text fs key_path = Inr key_text"
      and "read_text fs config_path = Inr config_content"
      and "fs config_path = Some cf" "writable cf"
  shows "fst (inject_key key_path config_path fs) = Returned"
    and "fst (snd (inject_key key_path config_path fs)) =
         fs(config_path \<mapsto> cf\<lparr>content :=
           (if str_contains config_content target
            then str_replace config_content target
                   (rstrip (concat (map (\<lambda>line. indent @ line) (readlines key_text))))
            else str_replace config_content bare_placeholder
                   (concat (map (\<lambda>line. indent @ line) (readlines key_text)))),
           decodable := True\<rparr>)"
  using assms by (simp_all add: inject_key_def write_text_def Let_def)

lemma config_after_ok:
  assumes "read_text fs key_path = Inr key_text"
      and "read_text fs config_path = Inr config_content"
      and "fs config_path = Some cf" "writable cf"
  shows "config_after key_path config_path fs = Some
           (if str_contains config_content target
            then str_replace config_content target
                   (rstrip (concat (map (\<lambda>line. indent @ line) (readlines key_text))))
            else str_replace config_content bare_placeholder
                   (concat (map (\<lambda>line. indent @ line) (readlines key_text))))"
  unfolding config_after_def inject_key_ok(2)[OF assms] by simp

lemma target_nonempty: "target \<noteq> []"
  using length_target by auto

lemma bare_placeholder_nonempty: "bare_placeholder \<noteq> []"
  by (simp add: bare_placeholder_def)

text \<open>
  C1 as stated fails: with the indented placeholder twice in the config text, both
  occurrences are replaced and none is left in the written text.
\<close>

theorem first_occurrence_only_counterexample:
  "length (occurrences (target @ [newline] @ target) target) = 2 \<and>
   config_after ''oidc.key'' ''config.yml'' fs_two_placeholders =
     Some (''                K'' @ [newline] @ ''                K'') \<and>
   \<not> str_contains (''                K'' @ [newline] @ ''                K'') target"
  by code_simp

text \<open>
  C1, amended: when both files can be read and the config file written, and the indented
  placeholder occurs in the config text that \<open>inject_key\<close> reads (once or more), every
  occurrence is substituted, not only the first.
  The text is its pieces between the occurrences (two or more pieces, none containing
  the placeholder) with the placeholder between each two neighbours, and \<open>inject_key\<close>
  writes the same pieces with the indented, right-trimmed key text between each two
  neighbours; this holds for every way of cutting the text into pieces free of the
  placeholder.
\<close>

theorem inject_key_replaces_every_indented_placeholder:
  assumes "read_text fs key_path = Inr key_text"
      and "read_text fs config_path = Inr config_content"
      and "fs config_path = Some cf" "writable cf"
      and "key_content = concat (map (\<lambda>line. indent @ line) (readlines key_text))"
      and "str_contains config_content target"
  shows "2 \<le> length (split_nonempty config_content target) \<and>
         join target (split_nonempty config_content target) = config_content \<and>
         (\<forall>seg\<in>set (split_nonempty config_content target). \<not> str_contains seg target) \<and>
         (\<forall>segs. join target segs = config_content \<and>
                 (\<forall>seg\<in>set segs. \<not> str_contains seg target) \<longrightarrow>
            config_after key_path config_path fs = Some (join (rstrip key_content) segs))"
proof -
  have n: "2 \<le> length (split_nonempty config_content target)"
    using target_nonempty assms(6) by (rule split_nonempty_length)
  have j: "join target (split_nonempty config_content target) = config_content"
    using target_nonempty by (rule join_split_nonempty)
  have "leftmost_split target (split_nonempty config_content target)"
    using target_nonempty by (rule leftmost_split_split_nonempty)
  then have f: "\<forall>seg\<in>set (split_nonempty config_content target). \<not> str_contains seg target"
    by (rule leftmost_split_free)
  have w: "str_replace config_content target (rstrip key_content) =
           replace_nonempty config_content target (rstrip key_content)"
    using target_nonempty by (simp add: str_replace_def)
  have a: "\<forall>segs. join target segs = config_content \<and>
                 (\<forall>seg\<in>set segs. \<not> str_contains seg target) \<longrightarrow>
            config_after key_path config_path fs = Some (join (rstrip key_content) segs)"
  proof (intro allI impI)
    fix segs
    assume h: "join target segs = config_content \<and> (\<forall>seg\<in>set segs. \<not> str_contains seg target)"
    have "segs \<noteq> []"
    proof
      assume "segs = []"
      then have "config_content = []" using h by simp
      then show False using assms(6) target_nonempty by simp
    qed
    then have "leftmost_split target segs"
      using h by (simp add: target_free_leftmost_split)
    with target_nonempty
    have "replace_nonempty (join target segs) target (rstrip key_content)
          = join (rstrip key_content) segs"
      by (rule replace_nonempty_join)
    then have "str_replace config_content target (rstrip key_content)
               = join (rstrip key_content) segs"
      using h w by simp
    then show "config_after key_path config_path fs = Some (join (rstrip key_content) segs)"
      using assms(6) by (simp add: config_after_ok[OF assms(1-4)] assms(5))
  qed
  show ?thesis using n j f a by (intro conjI)
qed

theorem inject_key_replaces_every_indented_placeholder_witness:
  "read_text fs_two_placeholders ''oidc.key'' = Inr ''K'' \<and>
   read_text fs_two_placeholders ''config.yml'' = Inr (target @ [newline] @ target) \<and>
   str_contains (target @ [newline] @ target) target \<and>
   split_nonempty (target @ [newline] @ target) target = [[], [newline], []] \<and>
   config_after ''oidc.key'' ''config.yml'' fs_two_placeholders =
     Some (join ''                K'' [[], [newline], []])"
proof -
  have k: "read_text fs_two_placeholders ''oidc.key'' = Inr ''K''"
    by code_simp
  have c: "read_text fs_two_placeholders ''config.yml'' = Inr (target @ [newline] @ target)"
    by code_simp
  have e: "fs_two_placeholders ''config.yml'' = Some (plain_file (target @ [newline] @ target))"
    by (simp add: fs_two_placeholders_def)
  have w: "writable (plain_file (target @ [newline] @ target))"
    by (simp add: plain_file_def)
  have t: "''                K'' = rstrip (concat (map (\<lambda>line. indent @ line) (readlines ''K'')))"
    by code_simp
  have kc: "concat (map (\<lambda>line. indent @ line) (readlines ''K''))
            = concat (map (\<lambda>line. indent @ line) (readlines ''K''))"
    by simp
  have o: "str_contains (target @ [newline] @ target) target"
    by code_simp
  have s: "split_nonempty (target @ [newline] @ target) target = [[], [newline], []]"
    by code_simp
  note th = inject_key_replaces_every_indented_placeholder[OF k c e w kc o]
  have p: "join target (split_nonempty (target @ [newline] @ target) target)
             = target @ [newline] @ target \<and>
           (\<forall>seg\<in>set (split_nonempty (target @ [newline] @ target) target).
              \<not> str_contains seg target)"
    using th by (intro conjI) blast+
  have "config_after ''oidc.key'' ''config.yml'' fs_two_placeholders =
     Some (join (rstrip (concat (map (\<lambda>line. indent @ line) (readlines ''K''))))
             (split_nonempty (target @ [newline] @ target) target))"
    using th[THEN conjunct2, THEN conjunct2, THEN conjunct2] p by blast
  then have r: "config_after ''oidc.key'' ''config.yml'' fs_two_placeholders =
     Some (join ''                K'' [[], [newline], []])"
    unfolding s t .
  show ?thesis using k c o s r by (intro conjI)
qed

lemma occurrences_unique:
  assumes "length (occurrences s t) = 1" "i \<le> length s" "prefix t (drop i s)"
      and "j \<le> length s" "prefix t (drop j s)"
  shows "j = i"
proof -
  obtain k where k: "occurrences s t = [k]"
    using assms(1) by (cases "occurrences s t") auto
  have "i \<in> set (occurrences s t)" "j \<in> set (occurrences s t)"
    using assms(2-5) by (auto simp: occurrences_def simp del: upt_Suc)
  then show ?thesis by (simp add: k)
qed

lemma replace_nonempty_once:
  assumes "old \<noteq> []" "length (occurrences (pre @ old @ post) old) = 1"
  shows "replace_nonempty (pre @ old @ post) old new = pre @ new @ post"
proof -
  let ?s = "pre @ old @ post"
  have at: "length pre \<le> length ?s" "prefix old (drop (length pre) ?s)" by simp_all
  have only: "j = length pre" if "j \<le> length ?s" "prefix old (drop j ?s)" for j
    using occurrences_unique[OF assms(2) at that] .
  have "\<forall>i<length pre. \<not> prefix old (drop i ?s)"
  proof (intro allI impI)
    fix i assume i: "i < length pre"
    then have "i \<le> length ?s" by simp
    then show "\<not> prefix old (drop i ?s)" using only[of i] i by blast
  qed
  then have 1: "replace_nonempty ?s old new = pre @ replace_nonempty (old @ post) old new"
    by (rule replace_nonempty_skip)
  have "\<not> str_contains post old"
  proof
    assume "str_contains post old"
    then obtain ps ss where post: "post = ps @ old @ ss"
      unfolding str_contains_iff by blast
    let ?j = "length pre + length old + length ps"
    have "?j \<le> length ?s" by (simp add: post)
    moreover have "drop ?j ?s = old @ ss" by (simp add: post)
    then have "prefix old (drop ?j ?s)" by simp
    ultimately have "?j = length pre" by (rule only)
    then show False using assms(1) by simp
  qed
  then have "replace_nonempty post old new = post" by (rule replace_nonempty_absent)
  then show ?thesis using 1 assms(1) by (simp add: replace_nonempty_hit)
qed

text \<open>
  C2 as stated fails: the bare token is replaced by the key text with the 16 spaces
  before every line, not by the key text as it is in the key file.
\<close>

theorem bare_replacement_not_indented_counterexample:
  "\<not> str_contains ''x: __OIDC_KEY_PLACEHOLDER__'' target \<and>
   str_contains ''x: __OIDC_KEY_PLACEHOLDER__'' bare_placeholder \<and>
   config_after ''oidc.key'' ''config.yml'' fs_bare_placeholder =
     Some (''x:                 K'' @ [newline]) \<and>
   config_after ''oidc.key'' ''config.yml'' fs_bare_placeholder \<noteq>
     Some (str_replace ''x: __OIDC_KEY_PLACEHOLDER__'' bare_placeholder (''K'' @ [newline]))"
  by code_simp

text \<open>
  C2, amended: when both files can be read and the config file written, and the config
  text that \<open>inject_key\<close> reads does not contain the indented placeholder but contains
  the bare token, the bare token is replaced by the indented key text: every line of the key file with the 16 spaces before it, nothing trimmed.  The
  occurrences replaced are the ones a scan from the left finds: the text is its pieces
  between those occurrences (two or more) with the token between each two neighbours, and
  \<open>inject_key\<close> writes the same pieces with the indented key text between each two
  neighbours.
\<close>

theorem inject_key_bare_replacement_is_indented:
  assumes "read_text fs key_path = Inr key_text"
      and "read_text fs config_path = Inr config_content"
      and "fs config_path = Some cf" "writable cf"
      and "key_content = concat (map (\<lambda>line. indent @ line) (readlines key_text))"
      and "\<not> str_contains config_content target"
      and "str_contains config_content bare_placeholder"
  shows "2 \<le> length (split_nonempty config_content bare_placeholder) \<and>
         join bare_placeholder (split_nonempty config_content bare_placeholder) = config_content \<and>
         leftmost_split bare_placeholder (split_nonempty config_content bare_placeholder) \<and>
         (\<forall>segs. join bare_placeholder segs = config_content \<and>
                 leftmost_split bare_placeholder segs \<longrightarrow>
            config_after key_path config_path fs = Some (join key_content segs))"
proof -
  have n: "2 \<le> length (split_nonempty config_content bare_placeholder)"
    using bare_placeholder_nonempty assms(7) by (rule split_nonempty_length)
  have j: "join bare_placeholder (split_nonempty config_content bare_placeholder) = config_content"
    using bare_placeholder_nonempty by (rule join_split_nonempty)
  have l: "leftmost_split bare_placeholder (split_nonempty config_content bare_placeholder)"
    using bare_placeholder_nonempty by (rule leftmost_split_split_nonempty)
  have w: "str_replace config_content bare_placeholder key_content =
           replace_nonempty config_content bare_placeholder key_content"
    using bare_placeholder_nonempty by (simp add: str_replace_def)
  have a: "\<forall>segs. join bare_placeholder segs = config_content \<and>
                 leftmost_split bare_placeholder segs \<longrightarrow>
            config_after key_path config_path fs = Some (join key_content segs)"
  proof (intro allI impI)
    fix segs
    assume h: "join bare_placeholder segs = config_content \<and> leftmost_split bare_placeholder segs"
    then have "leftmost_split bare_placeholder segs" by simp
    with bare_placeholder_nonempty
    have "replace_nonempty (join bare_placeholder segs) bare_placeholder key_content
          = join key_content segs"
      by (rule replace_nonempty_join)
    then have "str_replace config_content bare_placeholder key_content = join key_content segs"
      using h w by simp
    then show "config_after key_path config_path fs = Some (join key_content segs)"
      using assms(6) by (simp add: config_after_ok[OF assms(1-4)] assms(5))
  qed
  show ?thesis using n j l a by (intro conjI)
qed

theorem inject_key_bare_replacement_is_indented_witness:
  "read_text fs_partial_token ''oidc.key'' = Inr (''K'' @ [newline]) \<and>
   read_text fs_partial_token ''config.yml'' =
     Inr ''x: __OIDC_KEY_PLACEHOLDER____OIDC_KEY_PLACEHOLDER_'' \<and>
   \<not> str_contains ''x: __OIDC_KEY_PLACEHOLDER____OIDC_KEY_PLACEHOLDER_'' target \<and>
   str_contains ''x: __OIDC_KEY_PLACEHOLDER____OIDC_KEY_PLACEHOLDER_'' bare_placeholder \<and>
   split_nonempty ''x: __OIDC_KEY_PLACEHOLDER____OIDC_KEY_PLACEHOLDER_'' bare_placeholder =
     [''x: '', ''__OIDC_KEY_PLACEHOLDER_''] \<and>
   config_after ''oidc.key'' ''config.yml'' fs_partial_token =
     Some (''x:                 K'' @ [newline] @ ''__OIDC_KEY_PLACEHOLDER_'')"
proof -
  let ?c = "''x: __OIDC_KEY_PLACEHOLDER____OIDC_KEY_PLACEHOLDER_''"
  have k: "read_text fs_partial_token ''oidc.key'' = Inr (''K'' @ [newline])"
    by code_simp
  have c: "read_text fs_partial_token ''config.yml'' = Inr ?c"
    by code_simp
  have e: "fs_partial_token ''config.yml'' = Some (plain_file ?c)"
    by (simp add: fs_partial_token_def)
  have w: "writable (plain_file ?c)"
    by (simp add: plain_file_def)
  have kc: "concat (map (\<lambda>line. indent @ line) (readlines (''K'' @ [newline])))
            = concat (map (\<lambda>line. indent @ line) (readlines (''K'' @ [newline])))"
    by simp
  have a: "\<not> str_contains ?c target"
    by code_simp
  have b: "str_contains ?c bare_placeholder"
    by code_simp
  have s: "split_nonempty ?c bare_placeholder = [''x: '', ''__OIDC_KEY_PLACEHOLDER_'']"
    by code_simp
  have t: "join (concat (map (\<lambda>line. indent @ line) (readlines (''K'' @ [newline]))))
             [''x: '', ''__OIDC_KEY_PLACEHOLDER_'']
           = ''x:                 K'' @ [newline] @ ''__OIDC_KEY_PLACEHOLDER_''"
    by code_simp
  note th = inject_key_bare_replacement_is_indented[OF k c e w kc a b]
  have p: "join bare_placeholder (split_nonempty ?c bare_placeholder) = ?c \<and>
           leftmost_split bare_placeholder (split_nonempty ?c bare_placeholder)"
    using th by (intro conjI) blast+
  have "config_after ''oidc.key'' ''config.yml'' fs_partial_token =
     Some (join (concat (map (\<lambda>line. indent @ line) (readlines (''K'' @ [newline]))))
             (split_nonempty ?c bare_placeholder))"
    using th[THEN conjunct2, THEN conjunct2, THEN conjunct2] p by blast
  then have r: "config_after ''oidc.key'' ''config.yml'' fs_partial_token =
     Some (''x:                 K'' @ [newline] @ ''__OIDC_KEY_PLACEHOLDER_'')"
    unfolding s t .
  show ?thesis using k c a b s r by (intro conjI)
qed

text \<open>
  C8 as stated fails: in a config file with CRLF line ends the bytes around the placeholder
  do not stay as they are; every \<open>\r\n\<close> is written back as \<open>\n\<close>.
\<close>

theorem surrounding_bytes_unchanged_counterexample:
  "length (occurrences (''a: |'' @ [carriage_return, newline] @ target @
                        [carriage_return, newline] @ ''b: 1'') target) = 1 \<and>
   config_after ''oidc.key'' ''config.yml'' fs_crlf_placeholder =
     Some (''a: |'' @ [newline] @ ''                LINE1'' @ [newline] @
           ''                LINE2'' @ [newline] @ ''b: 1'') \<and>
   config_after ''oidc.key'' ''config.yml'' fs_crlf_placeholder \<noteq>
     Some (''a: |'' @ [carriage_return, newline] @ ''                LINE1'' @ [newline] @
           ''                LINE2'' @ [carriage_return, newline] @ ''b: 1'')"
  by code_simp

text \<open>
  C8, amended: with the key file content \<open>LINE1\<newline>LINE2\<newline>\<close> and a config text
  (both files readable, the config file writable), as \<open>inject_key\<close> reads it (every
  \<open>\r\n\<close> and every other \<open>\r\<close> of the file read as \<open>\n\<close>), in which the indented
  placeholder occurs exactly once, \<open>inject_key\<close> returns and writes the config file with the placeholder replaced by the two key lines, each after
  16 spaces, without the last newline; every other character of the text as read is
  unchanged.  For a config file without carriage returns the text as read is the file
  content, so there every other byte of the file is unchanged.
\<close>

theorem inject_key_line1_line2:
  assumes "fs key_path = Some kf" "readable kf" "decodable kf"
      and "content kf = ''LINE1'' @ [newline] @ ''LINE2'' @ [newline]"
      and "read_text fs config_path = Inr config_content"
      and "fs config_path = Some cf" "writable cf"
      and "config_content = pre @ target @ post"
      and "length (occurrences config_content target) = 1"
  shows "fst (inject_key key_path config_path fs) = Returned \<and>
         config_after key_path config_path fs =
           Some (pre @ ''                LINE1'' @ [newline] @ ''                LINE2'' @ post) \<and>
         (carriage_return \<notin> set (content cf) \<longrightarrow> content cf = pre @ target @ post)"
proof -
  define new where "new = ''                LINE1'' @ [newline] @ ''                LINE2''"
  have "universal_newlines (''LINE1'' @ [newline] @ ''LINE2'' @ [newline])
        = ''LINE1'' @ [newline] @ ''LINE2'' @ [newline]"
    by code_simp
  then have k: "read_text fs key_path = Inr (''LINE1'' @ [newline] @ ''LINE2'' @ [newline])"
    using read_text_plain[of fs key_path kf] assms(1,2,3,4) by simp
  have "rstrip (concat (map (\<lambda>line. indent @ line)
                (readlines (''LINE1'' @ [newline] @ ''LINE2'' @ [newline]))))
             = ''                LINE1'' @ [newline] @ ''                LINE2''"
    by code_simp
  then have key: "rstrip (concat (map (\<lambda>line. indent @ line)
                (readlines (''LINE1'' @ [newline] @ ''LINE2'' @ [newline])))) = new"
    unfolding new_def .
  have found: "str_contains config_content target"
    unfolding assms(8) str_contains_iff by blast
  have "replace_nonempty (pre @ target @ post) target new = pre @ new @ post"
    using target_nonempty assms(9)[unfolded assms(8)] by (rule replace_nonempty_once)
  then have "str_replace config_content target new = pre @ new @ post"
    using target_nonempty by (simp add: str_replace_def assms(8))
  then have "config_after key_path config_path fs = Some (pre @ new @ post)"
    using found config_after_ok[OF k assms(5,6,7), unfolded key] by simp
  then have out: "config_after key_path config_path fs =
           Some (pre @ ''                LINE1'' @ [newline] @ ''                LINE2'' @ post)"
    by (simp add: new_def)
  have ret: "fst (inject_key key_path config_path fs) = Returned"
    by (rule inject_key_ok(1)[OF k assms(5,6,7)])
  have raw: "carriage_return \<notin> set (content cf) \<longrightarrow> content cf = pre @ target @ post"
  proof
    assume "carriage_return \<notin> set (content cf)"
    then have "universal_newlines (content cf) = content cf"
      by (rule universal_newlines_id)
    then show "content cf = pre @ target @ post"
      using read_text_Some(1)[OF assms(5,6)] assms(8) by simp
  qed
  show ?thesis using ret out raw by (intro conjI)
qed

theorem inject_key_line1_line2_witness:
  "fs_line_key ''oidc.key'' = Some (plain_file (''LINE1'' @ [newline] @ ''LINE2'' @ [newline])) \<and>
   read_text fs_line_key ''config.yml'' =
     Inr (''key: |'' @ [newline] @ target @ [newline] @ ''next: 1'') \<and>
   length (occurrences (''key: |'' @ [newline] @ target @ [newline] @ ''next: 1'') target) = 1 \<and>
   carriage_return \<notin> set (''key: |'' @ [newline] @ target @ [newline] @ ''next: 1'') \<and>
   fst (inject_key ''oidc.key'' ''config.yml'' fs_line_key) = Returned \<and>
   config_after ''oidc.key'' ''config.yml'' fs_line_key =
     Some (''key: |'' @ [newline] @ ''                LINE1'' @ [newline] @
           ''                LINE2'' @ [newline] @ ''next: 1'')"
proof -
  let ?k = "plain_file (''LINE1'' @ [newline] @ ''LINE2'' @ [newline])"
  let ?t = "''key: |'' @ [newline] @ target @ [newline] @ ''next: 1''"
  have k: "fs_line_key ''oidc.key'' = Some ?k"
    by (simp add: fs_line_key_def)
  have r: "readable ?k" "writable (plain_file ?t)" "decodable ?k"
    by (simp_all add: plain_file_def)
  have kc: "content ?k = ''LINE1'' @ [newline] @ ''LINE2'' @ [newline]"
    by (simp add: plain_file_def)
  have c: "read_text fs_line_key ''config.yml'' = Inr ?t"
    by code_simp
  have e: "fs_line_key ''config.yml'' = Some (plain_file ?t)"
    by (simp add: fs_line_key_def)
  have cc: "?t = (''key: |'' @ [newline]) @ target @ ([newline] @ ''next: 1'')"
    by simp
  have o: "length (occurrences ?t target) = 1"
    by code_simp
  have n: "carriage_return \<notin> set ?t"
    by code_simp
  note th = inject_key_line1_line2[OF k r(1) r(3) kc c e r(2) cc o]
  have a: "fst (inject_key ''oidc.key'' ''config.yml'' fs_line_key) = Returned"
    using th[THEN conjunct1] .
  have b: "config_after ''oidc.key'' ''config.yml'' fs_line_key =
     Some (''key: |'' @ [newline] @ ''                LINE1'' @ [newline] @
           ''                LINE2'' @ [newline] @ ''next: 1'')"
    using th[THEN conjunct2, THEN conjunct1] by simp
  show ?thesis using k c o n a b by (intro conjI)
qed

text \<open>
  C9 as stated fails: a config file with CRLF line ends and no placeholder is written back
  with LF line ends, while the script reports success.
\<close>

theorem byte_identical_counterexample:
  "\<not> str_contains (''issuer: none'' @ [carriage_return, newline] @
                     ''port: 1'' @ [carriage_return, newline]) target \<and>
   \<not> str_contains (''issuer: none'' @ [carriage_return, newline] @
                     ''port: 1'' @ [carriage_return, newline]) bare_placeholder \<and>
   fst (script_main [''inject_key.py'', ''oidc.key'', ''config.yml''] fs_crlf_no_placeholder) = 0 \<and>
   config_after ''oidc.key'' ''config.yml'' fs_crlf_no_placeholder =
     Some (''issuer: none'' @ [newline] @ ''port: 1'' @ [newline]) \<and>
   config_after ''oidc.key'' ''config.yml'' fs_crlf_no_placeholder \<noteq>
     Some (''issuer: none'' @ [carriage_return, newline] @
           ''port: 1'' @ [carriage_return, newline])"
  by code_simp

text \<open>
  C9, amended: when the config text, as \<open>inject_key\<close> reads it (every \<open>\r\n\<close> and every
  other \<open>\r\<close> of the file read as \<open>\n\<close>), contains neither the indented placeholder nor
  the bare token, and both files can be read and the config file written, \<open>inject_key\<close>
  writes that text back,
  prints the success line and returns, and the script exits with status 0.  The file is
  byte-identical to its input exactly when the input has no carriage return.
\<close>

theorem inject_key_no_placeholder_unchanged:
  assumes "read_text fs key_path = Inr key_text"
      and "read_text fs config_path = Inr config_content"
      and "fs config_path = Some cf" "writable cf"
      and "\<not> str_contains config_content target"
      and "\<not> str_contains config_content bare_placeholder"
  shows "inject_key key_path config_path fs =
           (Returned, fs(config_path \<mapsto> cf\<lparr>content := config_content, decodable := True\<rparr>),
            [''Injecting key from '' @ key_path @ '' into '' @ config_path,
             ''Indented placeholder not found, trying bare replacement.'',
             ''Successfully injected key.'']) \<and>
         config_after key_path config_path fs = Some config_content \<and>
         fst (script_main [prog, key_path, config_path] fs) = 0 \<and>
         (fst (snd (inject_key key_path config_path fs)) = fs
            \<longleftrightarrow> carriage_return \<notin> set (content cf))"
proof -
  have same: "str_replace config_content bare_placeholder new = config_content" for new
    using assms(6) bare_placeholder_nonempty
    by (simp add: str_replace_def replace_nonempty_absent)
  have run: "inject_key key_path config_path fs =
           (Returned, fs(config_path \<mapsto> cf\<lparr>content := config_content, decodable := True\<rparr>),
            [''Injecting key from '' @ key_path @ '' into '' @ config_path,
             ''Indented placeholder not found, trying bare replacement.'',
             ''Successfully injected key.''])"
    using assms(1-5) by (simp add: inject_key_def write_text_def Let_def same)
  have after: "config_after key_path config_path fs = Some config_content"
    using assms(5) by (simp add: config_after_ok[OF assms(1-4)] same)
  have status: "fst (script_main [prog, key_path, config_path] fs) = 0"
    using run by (simp add: script_main_def)
  have rd: "config_content = universal_newlines (content cf)" and dec: "decodable cf"
    using read_text_Some[OF assms(2,3)] by simp_all
  have "fs(config_path \<mapsto> cf\<lparr>content := config_content, decodable := True\<rparr>) = fs
        \<longleftrightarrow> config_content = content cf"
  proof
    assume "fs(config_path \<mapsto> cf\<lparr>content := config_content, decodable := True\<rparr>) = fs"
    then have "(fs(config_path \<mapsto> cf\<lparr>content := config_content, decodable := True\<rparr>))
                 config_path = fs config_path"
      by simp
    then have "cf\<lparr>content := config_content, decodable := True\<rparr> = cf"
      using assms(3) by simp
    then have "content (cf\<lparr>content := config_content, decodable := True\<rparr>) = content cf"
      by simp
    then show "config_content = content cf" by simp
  next
    assume "config_content = content cf"
    then have "cf\<lparr>content := config_content, decodable := True\<rparr> = cf"
      using dec by simp
    then show "fs(config_path \<mapsto> cf\<lparr>content := config_content, decodable := True\<rparr>) = fs"
      using assms(3) by (simp add: map_upd_triv)
  qed
  then have same_fs: "fst (snd (inject_key key_path config_path fs)) = fs
            \<longleftrightarrow> carriage_return \<notin> set (content cf)"
    using run rd universal_newlines_fixed_iff[of "content cf"] by simp
  show ?thesis using run after status same_fs by (intro conjI)
qed

theorem inject_key_no_placeholder_unchanged_witness:
  "read_text fs_no_placeholder ''oidc.key'' = Inr (''K'' @ [newline]) \<and>
   read_text fs_no_placeholder ''config.yml'' = Inr ''issuer: none'' \<and>
   \<not> str_contains ''issuer: none'' target \<and>
   \<not> str_contains ''issuer: none'' bare_placeholder \<and>
   carriage_return \<notin> set ''issuer: none'' \<and>
   fst (inject_key ''oidc.key'' ''config.yml'' fs_no_placeholder) = Returned \<and>
   fst (snd (inject_key ''oidc.key'' ''config.yml'' fs_no_placeholder)) = fs_no_placeholder \<and>
   config_after ''oidc.key'' ''config.yml'' fs_no_placeholder = Some ''issuer: none'' \<and>
   fst (script_main [''inject_key.py'', ''oidc.key'', ''config.yml''] fs_no_placeholder) = 0"
proof -
  let ?c = "plain_file ''issuer: none''"
  have k: "read_text fs_no_placeholder ''oidc.key'' = Inr (''K'' @ [newline])"
    by code_simp
  have c: "read_text fs_no_placeholder ''config.yml'' = Inr ''issuer: none''"
    by code_simp
  have e: "fs_no_placeholder ''config.yml'' = Some ?c"
    by (simp add: fs_no_placeholder_def)
  have w: "writable ?c"
    by (simp add: plain_file_def)
  have a: "\<not> str_contains ''issuer: none'' target"
    by code_simp
  have b: "\<not> str_contains ''issuer: none'' bare_placeholder"
    by code_simp
  have n: "carriage_return \<notin> set ''issuer: none''"
    by code_simp
  then have n': "carriage_return \<notin> set (content ?c)"
    by (simp add: plain_file_def)
  note th = inject_key_no_placeholder_unchanged[OF k c e w a b, of "''inject_key.py''"]
  have r: "fst (inject_key ''oidc.key'' ''config.yml'' fs_no_placeholder) = Returned"
    using th[THEN conjunct1] by simp
  have s: "fst (snd (inject_key ''oidc.key'' ''config.yml'' fs_no_placeholder)) = fs_no_placeholder"
    using th[THEN conjunct2, THEN conjunct2, THEN conjunct2] n' by blast
  have t: "config_after ''oidc.key'' ''config.yml'' fs_no_placeholder = Some ''issuer: none''"
    using th[THEN conjunct2, THEN conjunct1] .
  have u: "fst (script_main [''inject_key.py'', ''oidc.key'', ''config.yml''] fs_no_placeholder) = 0"
    using th[THEN conjunct2, THEN conjunct2, THEN conjunct1] .
  show ?thesis using k c a b n r s t u by (intro conjI)
qed

text \<open>
  C10: when the key file or the config file cannot be read, \<open>inject_key\<close> ends the
  process with status 1 and the file system is as it was: nothing is written.
\<close>

theorem inject_key_read_failure:
  assumes "isl (read_text fs key_path) \<or> isl (read_text fs config_path)"
  shows "fst (inject_key key_path config_path fs) = Exit 1 \<and>
         fst (snd (inject_key key_path config_path fs)) = fs \<and>
         fst (script_main [prog, key_path, config_path] fs) = 1 \<and>
         fst (snd (script_main [prog, key_path, config_path] fs)) = fs"
proof -
  have "fst (inject_key key_path config_path fs) = Exit 1 \<and>
        fst (snd (inject_key key_path config_path fs)) = fs"
    using assms by (auto simp: inject_key_def Let_def split: sum.splits)
  then show ?thesis
    by (cases "inject_key key_path config_path fs") (simp add: script_main_def)
qed

theorem inject_key_read_failure_witness:
  "isl (read_text fs_missing_key ''oidc.key'') \<and>
   fst (inject_key ''oidc.key'' ''config.yml'' fs_missing_key) = Exit 1 \<and>
   fst (snd (inject_key ''oidc.key'' ''config.yml'' fs_missing_key)) = fs_missing_key \<and>
   fst (script_main [''inject_key.py'', ''oidc.key'', ''config.yml''] fs_missing_key) = 1"
proof -
  have h: "isl (read_text fs_missing_key ''oidc.key'')"
    by (simp add: read_text_def fs_missing_key_def)
  then have "isl (read_text fs_missing_key ''oidc.key'') \<or> isl (read_text fs_missing_key ''config.yml'')"
    by simp
  from inject_key_read_failure[OF this, of "''inject_key.py''"] h show ?thesis by simp
qed

section \<open>Facts about the exporter\<close>

lemma process_containers_append:
  "process_containers (xs @ ys) st = process_containers ys (process_containers xs st)"
  by (induction xs arbitrary: st) auto

lemma process_container_meta:
  "CONTAINER_META (process_container st c) t =
     (if extract_labels c = Inr t then Some 1 else CONTAINER_META st t)"
  by (auto simp: process_container_def split: sum.splits)

lemma process_containers_meta:
  "CONTAINER_META (process_containers cs st) t =
     (if \<exists>c\<in>set cs. extract_labels c = Inr t then Some 1 else CONTAINER_META st t)"
  by (induction cs arbitrary: st) (auto simp: process_container_meta)

lemma collect_metrics_meta:
  assumes "from_env = Inr client" "containers_list client = Inr cs"
  shows "CONTAINER_META (collect_metrics from_env st) t =
     (if \<exists>c\<in>set cs. extract_labels c = Inr t then Some 1 else None)"
  using assms by (simp add: collect_metrics_def process_containers_meta)

lemma process_container_stdout:
  "set (stdout st) \<subseteq> set (stdout (process_container st c))"
  by (auto simp: process_container_def split: sum.splits)

lemma process_containers_stdout:
  "set (stdout st) \<subseteq> set (stdout (process_containers cs st))"
proof (induction cs arbitrary: st)
  case Nil
  then show ?case by simp
next
  case (Cons c cs)
  then show ?case using process_container_stdout by fastforce
qed

lemma extract_labels_ids:
  assumes "extract_labels c = Inr (a, b, d, e, f, g)"
  shows "a = take 12 (c_id c) \<and> g = c_id c"
  using assms by (auto simp: extract_labels_def Let_def split: sum.splits)

lemma extract_labels_full_id:
  assumes "extract_labels c = Inr t"
  shows "snd (snd (snd (snd (snd t)))) = c_id c"
  using assms by (auto simp: extract_labels_def Let_def split: sum.splits)

lemma distinct_ids_give_distinct_labels:
  assumes "distinct (map c_id cs)" "\<forall>c\<in>set cs. \<not> isl (extract_labels c)"
  shows "distinct (map extract_labels cs)"
proof -
  have dc: "distinct cs" and inj: "inj_on c_id (set cs)"
    using assms(1) by (simp_all add: distinct_map)
  have "inj_on extract_labels (set cs)"
  proof (rule inj_onI)
    fix x y assume xy: "x \<in> set cs" "y \<in> set cs" "extract_labels x = extract_labels y"
    obtain t where t: "extract_labels x = Inr t"
      using assms(2) xy(1) by (cases "extract_labels x") auto
    then have "snd (snd (snd (snd (snd t)))) = c_id x"
      by (rule extract_labels_full_id)
    moreover have "snd (snd (snd (snd (snd t)))) = c_id y"
      using t xy(3) by (simp add: extract_labels_full_id)
    ultimately have "c_id x = c_id y" by simp
    with inj show "x = y" using xy(1,2) by (rule inj_onD)
  qed
  then show ?thesis using dc by (simp add: distinct_map)
qed

text \<open>
  C3: when \<open>docker.from_env()\<close> raises, or the container listing raises, the call leaves
  the observation set as it was and prints the error; \<open>collect_metrics\<close> has no other way
  to end than returning the state.
\<close>

theorem collect_metrics_query_failure:
  assumes "from_env = Inl e \<or> (from_env = Inr client \<and> containers_list client = Inl e)"
  shows "CONTAINER_META (collect_metrics from_env st) = CONTAINER_META st \<and>
         stdout (collect_metrics from_env st) =
           stdout st @ [''Error connecting to Docker: '' @ docker_exn_str e]"
  using assms by (auto simp: collect_metrics_def)

theorem collect_metrics_query_failure_witness:
  "CONTAINER_META (collect_metrics (Inl (DockerException ''connection refused'')) st_stale) =
     CONTAINER_META st_stale \<and>
   stdout (collect_metrics (Inl (DockerException ''connection refused'')) st_stale) =
     stdout st_stale @ [''Error connecting to Docker: connection refused''] \<and>
   CONTAINER_META (collect_metrics (Inr (DockerClient (Inl (DockerException ''timeout'')))) st_stale) =
     CONTAINER_META st_stale"
proof -
  have a: "Inl (DockerException ''connection refused'') = Inl (DockerException ''connection refused'')
           \<or> (Inl (DockerException ''connection refused'') = Inr (DockerClient (Inr [])) \<and>
               containers_list (DockerClient (Inr [])) = Inl (DockerException ''connection refused''))"
    by simp
  have b: "Inr (DockerClient (Inl (DockerException ''timeout''))) = Inl (DockerException ''timeout'')
           \<or> (Inr (DockerClient (Inl (DockerException ''timeout''))) =
                 Inr (DockerClient (Inl (DockerException ''timeout''))) \<and>
               containers_list (DockerClient (Inl (DockerException ''timeout''))) =
                 Inl (DockerException ''timeout''))"
    by simp
  show ?thesis
    using collect_metrics_query_failure[OF a, of st_stale]
      collect_metrics_query_failure[OF b, of st_stale] by simp
qed

text \<open>
  C4 as stated fails: when the runtime query fails, the observation set is not cleared;
  an entry present before the call is still there after it.
\<close>

theorem clear_every_cycle_counterexample:
  "CONTAINER_META st_stale stale_labels = Some 1 \<and>
   CONTAINER_META (collect_metrics (Inl (DockerException ''connection refused'')) st_stale)
     stale_labels = Some 1"
  by (simp add: collect_metrics_def st_stale_def)

text \<open>
  C4, amended: in every call of \<open>collect_metrics\<close> in which the runtime query succeeds, the
  whole observation set is cleared before it is filled again: for every prior state, an
  entry is present afterwards only if this cycle set it, and the observation set after
  the call is the same for every prior state.
\<close>

theorem collect_metrics_clears_on_success:
  assumes "from_env = Inr client" "containers_list client = Inr cs"
  shows "(\<forall>t. (\<forall>c\<in>set cs. extract_labels c \<noteq> Inr t) \<longrightarrow>
              CONTAINER_META (collect_metrics from_env st) t = None) \<and>
         CONTAINER_META (collect_metrics from_env st) =
           CONTAINER_META (collect_metrics from_env st')"
proof -
  have "CONTAINER_META (collect_metrics from_env st) t =
        CONTAINER_META (collect_metrics from_env st') t" for t
    by (simp add: collect_metrics_meta[OF assms])
  then have "CONTAINER_META (collect_metrics from_env st) =
             CONTAINER_META (collect_metrics from_env st')"
    by (rule ext)
  then show ?thesis
    by (auto simp: collect_metrics_meta[OF assms])
qed

theorem collect_metrics_clears_on_success_witness:
  "extract_labels web_container \<noteq> Inr stale_labels \<and>
   CONTAINER_META st_stale stale_labels = Some 1 \<and>
   CONTAINER_META (collect_metrics (Inr (DockerClient (Inr [web_container]))) st_stale)
     stale_labels = None"
proof -
  have a: "Inr (DockerClient (Inr [web_container])) = Inr (DockerClient (Inr [web_container]))"
    by simp
  have b: "containers_list (DockerClient (Inr [web_container])) = Inr [web_container]"
    by simp
  have c: "\<forall>c\<in>set [web_container]. extract_labels c \<noteq> Inr stale_labels"
    by code_simp
  have d: "CONTAINER_META st_stale stale_labels = Some 1"
    by (simp add: st_stale_def)
  have c': "extract_labels web_container \<noteq> Inr stale_labels"
    using c by simp
  have "CONTAINER_META (collect_metrics (Inr (DockerClient (Inr [web_container]))) st_stale)
     stale_labels = None"
    using collect_metrics_clears_on_success[OF a b, of st_stale st_stale] c by blast
  then show ?thesis using c' d by (intro conjI)
qed

text \<open>
  C5: when the runtime query returns N containers, no extraction fails and the label
  tuples are pairwise distinct, the observation set after the call has exactly N entries:
  the label tuples of the containers, each with value 1; the tuple of a container starts
  with the first 12 characters of its id and ends with its id.
\<close>

theorem collect_metrics_one_entry_per_container:
  assumes "from_env = Inr client" "containers_list client = Inr cs"
      and "\<forall>c\<in>set cs. \<not> isl (extract_labels c)"
      and "distinct (map extract_labels cs)"
  shows "dom (CONTAINER_META (collect_metrics from_env st)) =
           {t. \<exists>c\<in>set cs. extract_labels c = Inr t} \<and>
         card (dom (CONTAINER_META (collect_metrics from_env st))) = length cs \<and>
         (\<forall>t\<in>dom (CONTAINER_META (collect_metrics from_env st)).
            CONTAINER_META (collect_metrics from_env st) t = Some 1) \<and>
         (\<forall>c\<in>set cs. \<exists>name image service state.
            extract_labels c = Inr (take 12 (c_id c), name, image, service, state, c_id c) \<and>
            CONTAINER_META (collect_metrics from_env st)
              (take 12 (c_id c), name, image, service, state, c_id c) = Some 1)"
proof -
  let ?M = "CONTAINER_META (collect_metrics from_env st)"
  have M: "?M t = (if \<exists>c\<in>set cs. extract_labels c = Inr t then Some 1 else None)" for t
    by (rule collect_metrics_meta[OF assms(1,2)])
  have d: "dom ?M = {t. \<exists>c\<in>set cs. extract_labels c = Inr t}"
    by (auto simp: M dom_def)
  have inr: "extract_labels c = Inr (projr (extract_labels c))" if "c \<in> set cs" for c
    using assms(3) that by (cases "extract_labels c") auto
  have img: "{t. \<exists>c\<in>set cs. extract_labels c = Inr t} = set (map (projr \<circ> extract_labels) cs)"
  proof (intro set_eqI iffI)
    fix t assume "t \<in> {t. \<exists>c\<in>set cs. extract_labels c = Inr t}"
    then obtain c where c: "c \<in> set cs" "extract_labels c = Inr t" by blast
    then have "t = (projr \<circ> extract_labels) c" by simp
    then have "t \<in> (projr \<circ> extract_labels) ` set cs" using c(1) by (rule image_eqI)
    then show "t \<in> set (map (projr \<circ> extract_labels) cs)" by simp
  next
    fix t assume "t \<in> set (map (projr \<circ> extract_labels) cs)"
    then obtain c where c: "c \<in> set cs" "t = projr (extract_labels c)" by auto
    then have "extract_labels c = Inr t" using inr by simp
    then show "t \<in> {t. \<exists>c\<in>set cs. extract_labels c = Inr t}" using c(1) by blast
  qed
  have dist: "distinct (map (projr \<circ> extract_labels) cs)"
  proof -
    have dc: "distinct cs" and inj: "inj_on extract_labels (set cs)"
      using assms(4) by (simp_all add: distinct_map)
    have "inj_on (projr \<circ> extract_labels) (set cs)"
    proof (rule inj_onI)
      fix x y assume xy: "x \<in> set cs" "y \<in> set cs"
        "(projr \<circ> extract_labels) x = (projr \<circ> extract_labels) y"
      then have "extract_labels x = extract_labels y"
        using inr[of x] inr[of y] by simp
      with inj show "x = y" using xy(1,2) by (rule inj_onD)
    qed
    then show ?thesis using dc by (simp add: distinct_map)
  qed
  have "card (set (map (projr \<circ> extract_labels) cs)) = length (map (projr \<circ> extract_labels) cs)"
    using dist by (rule distinct_card)
  then have n: "card (dom ?M) = length cs"
    unfolding d img by simp
  have v: "\<forall>t\<in>dom ?M. ?M t = Some 1"
  proof
    fix t assume "t \<in> dom ?M"
    then have "\<exists>c\<in>set cs. extract_labels c = Inr t" unfolding d by simp
    then show "?M t = Some 1" by (simp add: M)
  qed
  have k: "\<forall>c\<in>set cs. \<exists>name image service state.
            extract_labels c = Inr (take 12 (c_id c), name, image, service, state, c_id c) \<and>
            ?M (take 12 (c_id c), name, image, service, state, c_id c) = Some 1"
  proof
    fix c assume c: "c \<in> set cs"
    obtain a b d e f g where "projr (extract_labels c) = (a, b, d, e, f, g)"
      by (cases "projr (extract_labels c)" rule: prod_cases6)
    then have t: "extract_labels c = Inr (a, b, d, e, f, g)"
      using inr[OF c] by simp
    then have "a = take 12 (c_id c) \<and> g = c_id c"
      by (rule extract_labels_ids)
    then have t': "extract_labels c = Inr (take 12 (c_id c), b, d, e, f, c_id c)"
      using t by simp
    then have "\<exists>c'\<in>set cs. extract_labels c' = Inr (take 12 (c_id c), b, d, e, f, c_id c)"
      using c by blast
    then have "?M (take 12 (c_id c), b, d, e, f, c_id c) = Some 1"
      by (simp add: M)
    with t' show "\<exists>name image service state.
            extract_labels c = Inr (take 12 (c_id c), name, image, service, state, c_id c) \<and>
            ?M (take 12 (c_id c), name, image, service, state, c_id c) = Some 1"
      by blast
  qed
  show ?thesis using d n v k by (intro conjI)
qed

theorem collect_metrics_one_entry_per_container_witness:
  "\<not> isl (extract_labels web_container) \<and> \<not> isl (extract_labels db_container) \<and>
   distinct (map extract_labels [web_container, db_container]) \<and>
   card (dom (CONTAINER_META
     (collect_metrics (Inr (DockerClient (Inr [web_container, db_container]))) st_stale))) = 2 \<and>
   dom (CONTAINER_META
     (collect_metrics (Inr (DockerClient (Inr [web_container, db_container]))) st_stale)) =
     {(''0123456789ab'', ''web'', ''nginx:latest'', ''frontend'', ''running'',
       ''0123456789abcdef0123456789abcdef''),
      (''fedcba987654'', ''db'', ''sha256:bb22'', ''db'', ''exited'',
       ''fedcba9876543210fedcba9876543210'')}"
proof -
  have a: "Inr (DockerClient (Inr [web_container, db_container])) =
           Inr (DockerClient (Inr [web_container, db_container]))"
    by simp
  have b: "containers_list (DockerClient (Inr [web_container, db_container])) =
           Inr [web_container, db_container]"
    by simp
  have c: "\<forall>c\<in>set [web_container, db_container]. \<not> isl (extract_labels c)"
    by code_simp
  have d: "distinct (map extract_labels [web_container, db_container])"
    by code_simp
  have w: "extract_labels web_container =
           Inr (''0123456789ab'', ''web'', ''nginx:latest'', ''frontend'', ''running'',
                ''0123456789abcdef0123456789abcdef'')"
    by code_simp
  have e: "extract_labels db_container =
           Inr (''fedcba987654'', ''db'', ''sha256:bb22'', ''db'', ''exited'',
                ''fedcba9876543210fedcba9876543210'')"
    by code_simp
  note th = collect_metrics_one_entry_per_container[OF a b c d, of st_stale]
  have n: "card (dom (CONTAINER_META
     (collect_metrics (Inr (DockerClient (Inr [web_container, db_container]))) st_stale))) = 2"
    using th[THEN conjunct2, THEN conjunct1] by simp
  have "{t. \<exists>c\<in>set [web_container, db_container]. extract_labels c = Inr t} =
     {(''0123456789ab'', ''web'', ''nginx:latest'', ''frontend'', ''running'',
       ''0123456789abcdef0123456789abcdef''),
      (''fedcba987654'', ''db'', ''sha256:bb22'', ''db'', ''exited'',
       ''fedcba9876543210fedcba9876543210'')}"
    unfolding list.set bex_simps w e by (simp only: sum.inject) blast
  then have m: "dom (CONTAINER_META
     (collect_metrics (Inr (DockerClient (Inr [web_container, db_container]))) st_stale)) =
     {(''0123456789ab'', ''web'', ''nginx:latest'', ''frontend'', ''running'',
       ''0123456789abcdef0123456789abcdef''),
      (''fedcba987654'', ''db'', ''sha256:bb22'', ''db'', ''exited'',
       ''fedcba9876543210fedcba9876543210'')}"
    using th[THEN conjunct1] by simp
  have c1: "\<not> isl (extract_labels web_container)" and c2: "\<not> isl (extract_labels db_container)"
    using c by simp_all
  show ?thesis using c1 c2 d n m by (intro conjI)
qed

text \<open>
  C6: a second call with the same outcome of the runtime query gives the same observation
  set as the first call: the same label tuples with the same values.
\<close>

theorem collect_metrics_idempotent:
  "CONTAINER_META (collect_metrics from_env (collect_metrics from_env st)) =
   CONTAINER_META (collect_metrics from_env st)"
proof (cases from_env)
  case (Inl e)
  then show ?thesis by (simp add: collect_metrics_def)
next
  case (Inr client)
  show ?thesis
  proof (cases "containers_list client")
    case (Inl e)
    then show ?thesis using Inr by (simp add: collect_metrics_def)
  next
    case cs: (Inr cs)
    show ?thesis
      by (rule ext) (simp add: collect_metrics_meta[OF Inr cs])
  qed
qed

text \<open>
  C7: when the extraction for one container of the list raises, that container adds no
  entry and its error line is printed, and every other container of the list whose
  extraction succeeds has its entry in the observation set after the call: the set is
  the one the call gives for the list without the failing container.
\<close>

theorem collect_metrics_skips_failing_container:
  assumes "from_env = Inr client" "containers_list client = Inr (xs @ c # ys)"
      and "extract_labels c = Inl e"
  shows "CONTAINER_META (collect_metrics from_env st) =
           CONTAINER_META (collect_metrics (Inr (DockerClient (Inr (xs @ ys)))) st) \<and>
         (''Error processing container '' @ take 12 (c_id c) @ '': '' @ docker_exn_str e)
           \<in> set (stdout (collect_metrics from_env st)) \<and>
         (\<forall>c'\<in>set (xs @ ys). \<forall>t. extract_labels c' = Inr t \<longrightarrow>
            CONTAINER_META (collect_metrics from_env st) t = Some 1)"
proof -
  let ?msg = "''Error processing container '' @ take 12 (c_id c) @ '': '' @ docker_exn_str e"
  let ?st0 = "st\<lparr>CONTAINER_META := Map.empty\<rparr>"
  have r: "Inr (DockerClient (Inr (xs @ ys))) = Inr (DockerClient (Inr (xs @ ys)))"
          "containers_list (DockerClient (Inr (xs @ ys))) = Inr (xs @ ys)"
    by simp_all
  have "CONTAINER_META (collect_metrics from_env st) t =
        CONTAINER_META (collect_metrics (Inr (DockerClient (Inr (xs @ ys)))) st) t" for t
    unfolding collect_metrics_meta[OF assms(1,2)] collect_metrics_meta[OF r]
    using assms(3) by auto
  then have same: "CONTAINER_META (collect_metrics from_env st) =
           CONTAINER_META (collect_metrics (Inr (DockerClient (Inr (xs @ ys)))) st)"
    by (rule ext)
  have "?msg \<in> set (stdout (process_container (process_containers xs ?st0) c))"
    using assms(3) by (simp add: process_container_def)
  then have "?msg \<in> set (stdout (process_containers ys
                 (process_container (process_containers xs ?st0) c)))"
    using process_containers_stdout by blast
  then have printed: "?msg \<in> set (stdout (collect_metrics from_env st))"
    using assms(1,2) by (simp add: collect_metrics_def process_containers_append)
  have rest: "\<forall>c'\<in>set (xs @ ys). \<forall>t. extract_labels c' = Inr t \<longrightarrow>
            CONTAINER_META (collect_metrics from_env st) t = Some 1"
    unfolding collect_metrics_meta[OF assms(1,2)] by auto
  show ?thesis using same printed rest by blast
qed

theorem collect_metrics_skips_failing_container_witness:
  "extract_labels broken_container = Inl (DockerException ''image not found'') \<and>
   ''Error processing container aaaabbbbcccc: image not found''
     \<in> set (stdout (collect_metrics
         (Inr (DockerClient (Inr [web_container, broken_container, db_container]))) st_stale)) \<and>
   CONTAINER_META (collect_metrics
       (Inr (DockerClient (Inr [web_container, broken_container, db_container]))) st_stale)
     (''fedcba987654'', ''db'', ''sha256:bb22'', ''db'', ''exited'',
      ''fedcba9876543210fedcba9876543210'') = Some 1"
proof -
  have a: "Inr (DockerClient (Inr [web_container, broken_container, db_container])) =
           Inr (DockerClient (Inr [web_container, broken_container, db_container]))"
    by simp
  have b: "containers_list (DockerClient (Inr [web_container, broken_container, db_container])) =
           Inr ([web_container] @ broken_container # [db_container])"
    by simp
  have c: "extract_labels broken_container = Inl (DockerException ''image not found'')"
    by code_simp
  have d: "extract_labels db_container =
           Inr (''fedcba987654'', ''db'', ''sha256:bb22'', ''db'', ''exited'',
                ''fedcba9876543210fedcba9876543210'')"
    by code_simp
  have i: "take 12 (c_id broken_container) = ''aaaabbbbcccc''"
    by code_simp
  note th = collect_metrics_skips_failing_container[OF a b c, of st_stale]
  have m: "''Error processing container aaaabbbbcccc: image not found''
     \<in> set (stdout (collect_metrics
         (Inr (DockerClient (Inr [web_container, broken_container, db_container]))) st_stale))"
    using th[THEN conjunct2, THEN conjunct1] by (simp add: i)
  have "db_container \<in> set ([web_container] @ [db_container])" by simp
  then have e: "CONTAINER_META (collect_metrics
       (Inr (DockerClient (Inr [web_container, broken_container, db_container]))) st_stale)
     (''fedcba987654'', ''db'', ''sha256:bb22'', ''db'', ''exited'',
      ''fedcba9876543210fedcba9876543210'') = Some 1"
    using th[THEN conjunct2, THEN conjunct2] d by blast
  show ?thesis using c m e by (intro conjI)
qed

end
